theory Spec2Isabelle
  imports Complex_Main "HOL-Library.Word"
begin

unbundle bit_operations_syntax

section \<open>Values of the host language\<close>

text \<open>
  The generator of \<^verbatim>\<open>rng.js\<close> keeps its three fields as BigInts, which are unbounded
  integers: they are modelled as \<^typ>\<open>int\<close>. The bitwise operators of BigInt work on the
  infinite two's complement representation, as the bit operations of \<^typ>\<open>int\<close> do.
  The limit an engine puts on the size of a BigInt is not modelled.
\<close>

datatype error = SyntaxError | RangeError | TypeError | ReferenceError

text \<open>
  A Number is a double: NaN, an infinity or a numeric value. The integer sampling code is
  run on integer-valued Numbers (\<^typ>\<open>int\<close>), and there every sum and difference is
  rounded to the nearest double, as binary64 arithmetic does. The float sampling code is
  run on \<^typ>\<open>real\<close> without rounding: what is proved of it below is at inputs where the
  double arithmetic is exact. The two zeros of binary64 are one value here; they compare
  equal and the program never divides by them.
\<close>

datatype 'n number = NaN | Num 'n | PosInfinity | NegInfinity

text \<open>An optional argument: \<open>None\<close> is \<^verbatim>\<open>undefined\<close>.\<close>

fun truthy :: "'n::zero option \<Rightarrow> bool" where
  "truthy None = False"
| "truthy (Some v) = (v \<noteq> 0)"

text \<open>\<^verbatim>\<open>ToNumber\<close>: \<^verbatim>\<open>undefined\<close> becomes NaN.\<close>

fun to_number :: "'n option \<Rightarrow> 'n number" where
  "to_number None = NaN"
| "to_number (Some v) = Num v"

text \<open>
  The exact operations. NaN absorbs; infinities of opposite sign add to NaN, an infinity
  times zero is NaN.
\<close>

fun num_add :: "'n::plus number \<Rightarrow> 'n number \<Rightarrow> 'n number" where
  "num_add (Num a) (Num b) = Num (a + b)"
| "num_add NaN _ = NaN"
| "num_add _ NaN = NaN"
| "num_add PosInfinity NegInfinity = NaN"
| "num_add NegInfinity PosInfinity = NaN"
| "num_add PosInfinity _ = PosInfinity"
| "num_add _ PosInfinity = PosInfinity"
| "num_add NegInfinity _ = NegInfinity"
| "num_add _ NegInfinity = NegInfinity"

fun num_neg :: "'n::uminus number \<Rightarrow> 'n number" where
  "num_neg (Num a) = Num (- a)"
| "num_neg NaN = NaN"
| "num_neg PosInfinity = NegInfinity"
| "num_neg NegInfinity = PosInfinity"

fun num_sub :: "'n::minus number \<Rightarrow> 'n number \<Rightarrow> 'n number" where
  "num_sub (Num a) (Num b) = Num (a - b)"
| "num_sub NaN _ = NaN"
| "num_sub _ NaN = NaN"
| "num_sub PosInfinity PosInfinity = NaN"
| "num_sub NegInfinity NegInfinity = NaN"
| "num_sub PosInfinity _ = PosInfinity"
| "num_sub _ NegInfinity = PosInfinity"
| "num_sub NegInfinity _ = NegInfinity"
| "num_sub _ PosInfinity = NegInfinity"

fun num_mul :: "'n::{times,zero,ord} number \<Rightarrow> 'n number \<Rightarrow> 'n number" where
  "num_mul (Num a) (Num b) = Num (a * b)"
| "num_mul NaN _ = NaN"
| "num_mul _ NaN = NaN"
| "num_mul PosInfinity PosInfinity = PosInfinity"
| "num_mul PosInfinity NegInfinity = NegInfinity"
| "num_mul NegInfinity PosInfinity = NegInfinity"
| "num_mul NegInfinity NegInfinity = PosInfinity"
| "num_mul PosInfinity (Num b) =
     (if b = 0 then NaN else if 0 < b then PosInfinity else NegInfinity)"
| "num_mul NegInfinity (Num b) =
     (if b = 0 then NaN else if 0 < b then NegInfinity else PosInfinity)"
| "num_mul (Num a) PosInfinity =
     (if a = 0 then NaN else if 0 < a then PosInfinity else NegInfinity)"
| "num_mul (Num a) NegInfinity =
     (if a = 0 then NaN else if 0 < a then NegInfinity else PosInfinity)"

text \<open>Comparisons with NaN are false.\<close>

fun num_less :: "'n::ord number \<Rightarrow> 'n number \<Rightarrow> bool" where
  "num_less (Num a) (Num b) = (a < b)"
| "num_less NaN _ = False"
| "num_less _ NaN = False"
| "num_less _ NegInfinity = False"
| "num_less PosInfinity _ = False"
| "num_less NegInfinity _ = True"
| "num_less _ PosInfinity = True"

text \<open>
  The remainder operator \<^verbatim>\<open>%\<close> truncates: the result takes the sign of the dividend,
  a zero divisor gives NaN, and an infinite divisor leaves a finite dividend as it is. The
  remainder of two doubles is a double: nothing is rounded.
\<close>

fun num_rem :: "int number \<Rightarrow> int number \<Rightarrow> int number" where
  "num_rem (Num a) (Num b) = (if b = 0 then NaN else Num (sgn a * (\<bar>a\<bar> mod \<bar>b\<bar>)))"
| "num_rem (Num a) PosInfinity = Num a"
| "num_rem (Num a) NegInfinity = Num a"
| "num_rem _ _ = NaN"

text \<open>
  Rounding an integer to binary64: an integer of at most 53 bits is a double; a longer
  one is rounded to the nearest multiple of the unit in the last place of its 53 leading
  bits, ties to the even multiple (\<open>round_to\<close>), and a result of \<open>2^1024\<close> or more is an
  infinity.
\<close>

fun bit_length :: "nat \<Rightarrow> nat" where
  "bit_length n = (if n = 0 then 0 else Suc (bit_length (n div 2)))"

declare bit_length.simps [simp del]

definition round_to :: "nat \<Rightarrow> nat \<Rightarrow> nat" where
  "round_to u m =
     (let q = m div u; r = m mod u in
      (if 2 * r < u \<or> (2 * r = u \<and> even q) then q else q + 1) * u)"

definition round64 :: "int \<Rightarrow> int number" where
  "round64 x =
     (let m = nat \<bar>x\<bar>; n = bit_length m in
      if n \<le> 53 then Num x
      else
        (let y = round_to (2 ^ (n - 53)) m in
         if 2 ^ 1024 \<le> y then (if x < 0 then NegInfinity else PosInfinity)
         else Num (sgn x * int y)))"

fun rounded :: "int number \<Rightarrow> int number" where
  "rounded (Num x) = round64 x"
| "rounded z = z"

section \<open>BigInt operators\<close>

text \<open>
  \<^verbatim>\<open>>>\<close> and \<^verbatim>\<open><<\<close> on BigInts: an arithmetic shift, and a negative count shifts
  the other way.
\<close>

definition shr :: "int \<Rightarrow> int \<Rightarrow> int" where
  "shr x r = (if 0 \<le> r then drop_bit (nat r) x else push_bit (nat (- r)) x)"

definition shl :: "int \<Rightarrow> int \<Rightarrow> int" where
  "shl x r = (if 0 \<le> r then push_bit (nat r) x else drop_bit (nat (- r)) x)"

text \<open>\<^verbatim>\<open>x.toString(2)\<close>: binary digits, most significant first, after a minus sign
  when \<open>x\<close> is negative.\<close>

fun bin_digits :: "nat \<Rightarrow> string" where
  "bin_digits n =
     (if n < 2 then [if n = 0 then CHR ''0'' else CHR ''1'']
      else bin_digits (n div 2) @ [if n mod 2 = 0 then CHR ''0'' else CHR ''1''])"

declare bin_digits.simps [simp del]

definition toString2 :: "int \<Rightarrow> string" where
  "toString2 x = (if x < 0 then CHR ''-'' # bin_digits (nat (- x)) else bin_digits (nat x))"

text \<open>
  \<^verbatim>\<open>BigInt(s)\<close> on a string: every string the program passes starts with \<^verbatim>\<open>0b\<close>, so
  only binary literals are read. Anything else than binary digits after the prefix, and
  no digit at all, is a SyntaxError.
\<close>

fun read_bits :: "string \<Rightarrow> nat \<Rightarrow> nat option" where
  "read_bits [] acc = Some acc"
| "read_bits (c # cs) acc =
     (if c = CHR ''0'' then read_bits cs (2 * acc)
      else if c = CHR ''1'' then read_bits cs (2 * acc + 1)
      else None)"

definition BigInt :: "string \<Rightarrow> error + int" where
  "BigInt s =
     (if take 2 s = ''0b'' \<and> 2 < length s
      then (case read_bits (drop 2 s) 0 of None \<Rightarrow> Inl SyntaxError | Some n \<Rightarrow> Inr (int n))
      else Inl SyntaxError)"

section \<open>The generator\<close>

record RNG =
  state :: int
  multiplier :: int
  increment :: int

text \<open>The constructor with its default arguments.\<close>

definition constructor :: "int \<Rightarrow> int \<Rightarrow> int \<Rightarrow> RNG" where
  "constructor s m i = \<lparr>state = s, multiplier = m, increment = i\<rparr>"

definition default_RNG :: RNG where
  "default_RNG = constructor 0x4d595df4d0f33173 6364136223846793005 1442695040888963407"

definition pad_or_truncate :: "int \<Rightarrow> nat \<Rightarrow> string" where
  "pad_or_truncate x bits =
     (let binary = toString2 x in
      if length binary \<le> bits
      then ''0b'' @ replicate (bits - length binary) CHR ''0'' @ binary
      else ''0b'' @ drop (length binary - bits) binary)"

definition rotr32 :: "int \<Rightarrow> int \<Rightarrow> int" where
  "rotr32 x r = (shr x r OR shl x ((- r) AND 31)) AND 4294967295"

text \<open>
  A method is a function from the generator to a result, which is an error when the
  method throws, and the generator it leaves. In \<open>call\<close> the only operation that can
  throw is the conversion of the padded string, before the state is assigned.
\<close>

definition call :: "RNG \<Rightarrow> (error + int) \<times> RNG" where
  "call g =
     (let x = state g in
      case BigInt (pad_or_truncate (state g * multiplier g + increment g) 64) of
        Inl e \<Rightarrow> (Inl e, g)
      | Inr s \<Rightarrow>
          (let g' = g\<lparr>state := s\<rparr>;
               count = shr x 59;
               x = shr (x XOR shr x 18) 27 AND 4294967295
           in (Inr (rotr32 x count), g')))"

definition init :: "RNG \<Rightarrow> int \<Rightarrow> (error + unit) \<times> RNG" where
  "init g seed =
     (let g1 = g\<lparr>state := seed + increment g\<rparr> in
      case call g1 of
        (Inl e, g2) \<Rightarrow> (Inl e, g2)
      | (Inr _, g2) \<Rightarrow> (Inr (), g2))"

text \<open>
  The three branches of \<open>randint\<close> and \<open>rand\<close> are selected by the truthiness of the
  arguments, so a bound that is zero counts as a bound that is not given. The bounds of
  \<open>randint\<close> are integer-valued doubles; its subtraction and its additions round.
\<close>

definition returning :: "(error + 'a) \<times> 's \<Rightarrow> ('a \<Rightarrow> 'b) \<Rightarrow> (error + 'b) \<times> 's" where
  "returning r f = (case r of (Inl e, s) \<Rightarrow> (Inl e, s) | (Inr v, s) \<Rightarrow> (Inr (f v), s))"

definition randint :: "RNG \<Rightarrow> int option \<Rightarrow> int option \<Rightarrow> (error + int number) \<times> RNG" where
  "randint g mn mx =
     (if truthy mx then
        returning (call g)
          (\<lambda>v. rounded
                 (num_add (num_rem (Num v) (rounded (num_sub (to_number mx) (to_number mn))))
                    (to_number mn)))
      else if truthy mn then
        (if num_less (Num 0) (to_number mn)
         then returning (call g) (\<lambda>v. num_rem (Num v) (to_number mn))
         else returning (call g)
                (\<lambda>v. rounded
                       (num_add (num_rem (Num v) (num_neg (to_number mn))) (to_number mn))))
      else returning (call g) Num)"

definition rand :: "RNG \<Rightarrow> real option \<Rightarrow> real option \<Rightarrow> (error + real number) \<times> RNG" where
  "rand g mn mx =
     (if truthy mx then
        returning (call g)
          (\<lambda>v. num_add (num_mul (num_mul (Num (of_int v)) (Num (1 / 2 ^ 32)))
                             (num_sub (to_number mx) (to_number mn)))
                    (to_number mn))
      else if truthy mn then
        returning (call g) (\<lambda>v. num_mul (num_mul (Num (of_int v)) (Num (1 / 2 ^ 32))) (to_number mn))
      else returning (call g) (\<lambda>v. num_mul (Num (of_int v)) (Num (1 / 2 ^ 32))))"

section \<open>Arrays\<close>

text \<open>
  Arrays are objects that the caller and the generator share by reference, and \<open>permute\<close>
  works in place: the arrays live in a store, addressed by natural numbers. The addresses
  below \<open>fresh\<close> are allocated. An element is \<^verbatim>\<open>undefined\<close>, a Number that the
  program itself puts into an array (an index), or any other value.
\<close>

datatype 'a val = Undefined | Number int | Other 'a

record 'a world =
  rng :: RNG
  arrays :: "nat \<Rightarrow> 'a val list"
  fresh :: nat

definition with_rng :: "(RNG \<Rightarrow> 'r \<times> RNG) \<Rightarrow> 'a world \<Rightarrow> 'r \<times> 'a world" where
  "with_rng m w = (case m (rng w) of (r, g') \<Rightarrow> (r, w\<lparr>rng := g'\<rparr>))"

definition new_array :: "'a val list \<Rightarrow> 'a world \<Rightarrow> nat \<times> 'a world" where
  "new_array xs w = (fresh w, w\<lparr>arrays := (arrays w)(fresh w := xs), fresh := Suc (fresh w)\<rparr>)"

definition push :: "nat \<Rightarrow> 'a val \<Rightarrow> 'a world \<Rightarrow> 'a world" where
  "push a v w = w\<lparr>arrays := (arrays w)(a := arrays w a @ [v])\<rparr>"

definition unshift :: "nat \<Rightarrow> 'a val \<Rightarrow> 'a world \<Rightarrow> 'a world" where
  "unshift a v w = w\<lparr>arrays := (arrays w)(a := v # arrays w a)\<rparr>"

text \<open>\<open>shift\<close> and \<open>pop\<close> return \<^verbatim>\<open>undefined\<close> on an empty array and leave it empty.\<close>

definition shift :: "nat \<Rightarrow> 'a world \<Rightarrow> 'a val \<times> 'a world" where
  "shift a w =
     (case arrays w a of
        [] \<Rightarrow> (Undefined, w)
      | x # xs \<Rightarrow> (x, w\<lparr>arrays := (arrays w)(a := xs)\<rparr>))"

definition pop :: "nat \<Rightarrow> 'a world \<Rightarrow> 'a val \<times> 'a world" where
  "pop a w =
     (case arrays w a of
        [] \<Rightarrow> (Undefined, w)
      | x # xs \<Rightarrow> (last (x # xs), w\<lparr>arrays := (arrays w)(a := butlast (x # xs))\<rparr>))"

text \<open>
  \<^verbatim>\<open>array.splice(start, 1)\<close>: NaN starts at 0, a negative start counts from the end
  (from the first element when it reaches before it), a start beyond the end removes
  nothing. The removed elements are returned; the program
  reads the first of them at once, so that short-lived array is a value here.
\<close>

definition splice_at :: "nat \<Rightarrow> int number \<Rightarrow> 'a world \<Rightarrow> 'a val list \<times> 'a world" where
  "splice_at a start w =
     (let xs = arrays w a;
          len = int (length xs);
          rel = (case start of
                   NaN \<Rightarrow> 0 | Num i \<Rightarrow> i | PosInfinity \<Rightarrow> len | NegInfinity \<Rightarrow> - len);
          k = nat (if rel < 0 then max (len + rel) 0 else min rel len);
          c = min 1 (length xs - k)
      in (take c (drop k xs), w\<lparr>arrays := (arrays w)(a := take k xs @ drop (k + c) xs)\<rparr>))"

text \<open>\<^verbatim>\<open>xs[0]\<close> and \<^verbatim>\<open>xs[i]\<close>: \<^verbatim>\<open>undefined\<close> outside the array.\<close>

definition at_index :: "'a val list \<Rightarrow> int \<Rightarrow> 'a val" where
  "at_index xs i = (if 0 \<le> i \<and> i < int (length xs) then xs ! nat i else Undefined)"

text \<open>
  \<^verbatim>\<open>Array.from(Array(n), (_, i) => i)\<close>: \<^verbatim>\<open>Array(n)\<close> throws a RangeError unless \<open>n\<close>
  is a valid array length. The array of holes that \<^verbatim>\<open>Array(n)\<close> builds is dropped
  at once and takes no address in the store.
\<close>

definition array_from_length :: "int \<Rightarrow> 'a world \<Rightarrow> (error + nat) \<times> 'a world" where
  "array_from_length n w =
     (if n < 0 \<or> 2 ^ 32 \<le> n then (Inl RangeError, w)
      else (case new_array (map (\<lambda>i. Number (int i)) [0..<nat n]) w of
              (a, w') \<Rightarrow> (Inr a, w')))"

section \<open>Permutations\<close>

text \<open>
  The loop of \<open>randperm\<close> and the first loop of \<open>permute\<close> are the same loop: while the
  source array has more than one element, remove the element at a random index from it and
  push that element onto the destination array. In \<open>randperm\<close> the source is the copy
  \<^verbatim>\<open>oldArray\<close> and the destination is \<^verbatim>\<open>newArray\<close>; in \<open>permute\<close> the source is the
  caller's array and the destination is \<^verbatim>\<open>oldArray\<close>. A loop that does not end has the
  value \<open>None\<close>.
\<close>

partial_function (option)
  draw_loop :: "nat \<Rightarrow> nat \<Rightarrow> 'a world \<Rightarrow> ((error + unit) \<times> 'a world) option" where
  "draw_loop src dst w =
     (if 1 < length (arrays w src) then
        (case with_rng (\<lambda>g. randint g (Some (int (length (arrays w src)))) None) w of
           (Inl e, w1) \<Rightarrow> Some (Inl e, w1)
         | (Inr i, w1) \<Rightarrow>
             (case splice_at src i w1 of
                (removed, w2) \<Rightarrow> draw_loop src dst (push dst (at_index removed 0) w2)))
      else Some (Inr (), w))"

text \<open>The argument of \<open>randperm\<close> is a Number or a reference to an array.\<close>

datatype perm_arg = NumberArg int | ArrayRef nat

definition randperm :: "perm_arg \<Rightarrow> 'a world \<Rightarrow> ((error + nat) \<times> 'a world) option" where
  "randperm array w =
     (case new_array [] w of
        (newArray, w1) \<Rightarrow>
          (case (case array of
                   NumberArg n \<Rightarrow> array_from_length n w1
                 | ArrayRef a \<Rightarrow>
                     (case new_array (arrays w1 a) w1 of (copy, w2) \<Rightarrow> (Inr copy, w2))) of
             (Inl e, w2) \<Rightarrow> Some (Inl e, w2)
           | (Inr oldArray, w2) \<Rightarrow>
               (case draw_loop oldArray newArray w2 of
                  None \<Rightarrow> None
                | Some (Inl e, w3) \<Rightarrow> Some (Inl e, w3)
                | Some (Inr _, w3) \<Rightarrow>
                    (case shift oldArray w3 of
                       (x, w4) \<Rightarrow> Some (Inr newArray, push newArray x w4)))))"

partial_function (option)
  unshift_loop :: "nat \<Rightarrow> nat \<Rightarrow> 'a world \<Rightarrow> 'a world option" where
  "unshift_loop array oldArray w =
     (if 0 < length (arrays w oldArray) then
        (case pop oldArray w of
           (x, w1) \<Rightarrow> unshift_loop array oldArray (unshift array x w1))
      else Some w)"

definition permute :: "nat \<Rightarrow> 'a world \<Rightarrow> ((error + unit) \<times> 'a world) option" where
  "permute array w =
     (case new_array [] w of
        (oldArray, w1) \<Rightarrow>
          (case draw_loop array oldArray w1 of
             None \<Rightarrow> None
           | Some (Inl e, w2) \<Rightarrow> Some (Inl e, w2)
           | Some (Inr _, w2) \<Rightarrow>
               (case unshift_loop array oldArray w2 of
                  None \<Rightarrow> None
                | Some w3 \<Rightarrow> Some (Inr (), w3))))"

section \<open>Weighted choice\<close>

text \<open>\<^verbatim>\<open>xs.reduce((x, e) => x + e)\<close> without an initial value: a TypeError on the empty
  array.\<close>

fun reduce_add :: "real list \<Rightarrow> error + real" where
  "reduce_add [] = Inl TypeError"
| "reduce_add (x # xs) = Inr (foldl (+) x xs)"

text \<open>
  The callback that \<open>choose\<close> maps over the probabilities reads the identifier \<^verbatim>\<open>p\<close>.
  The module binds no such name (it is no parameter, no local and no import), so reading
  it raises a ReferenceError.
\<close>

definition p_unbound :: "error + real list" where
  "p_unbound = Inl ReferenceError"

definition cumulative_at :: "nat \<Rightarrow> error + real" where
  "cumulative_at i = (case p_unbound of Inl e \<Rightarrow> Inl e | Inr pv \<Rightarrow> reduce_add (take (i + 1) pv))"

text \<open>\<^verbatim>\<open>xs.map((e, i) => f(i))\<close> with a callback that can throw.\<close>

fun map_indexed :: "(nat \<Rightarrow> error + 'b) \<Rightarrow> nat \<Rightarrow> 'c list \<Rightarrow> error + 'b list" where
  "map_indexed f i [] = Inr []"
| "map_indexed f i (x # xs) =
     (case f i of
        Inl e \<Rightarrow> Inl e
      | Inr y \<Rightarrow> (case map_indexed f (Suc i) xs of Inl e \<Rightarrow> Inl e | Inr ys \<Rightarrow> Inr (y # ys)))"

text \<open>\<^verbatim>\<open>xs.findIndex(f)\<close>: the first index where \<open>f\<close> holds, or \<open>-1\<close>.\<close>

fun findIndex :: "('b \<Rightarrow> bool) \<Rightarrow> 'b list \<Rightarrow> int" where
  "findIndex f [] = - 1"
| "findIndex f (x # xs) =
     (if f x then 0 else (let i = findIndex f xs in if i < 0 then - 1 else i + 1))"

text \<open>The method \<^verbatim>\<open>choose\<close>; the name is taken by the binomial coefficient.\<close>

definition choose_item :: "RNG \<Rightarrow> real list \<Rightarrow> 'a val list option \<Rightarrow> (error + 'a val) \<times> RNG" where
  "choose_item g probabilities array =
     (case (case array of
              None \<Rightarrow> Inr (map (\<lambda>i. Number (int i)) [0..<length probabilities])
            | Some items \<Rightarrow>
                if length probabilities \<noteq> length items then Inl RangeError else Inr items) of
        Inl e \<Rightarrow> (Inl e, g)
      | Inr items \<Rightarrow>
          (case reduce_add probabilities of
             Inl e \<Rightarrow> (Inl e, g)
           | Inr normalizer \<Rightarrow>
               (case rand g (Some normalizer) None of
                  (Inl e, g') \<Rightarrow> (Inl e, g')
                | (Inr number, g') \<Rightarrow>
                    (case map_indexed cumulative_at 0 probabilities of
                       Inl e \<Rightarrow> (Inl e, g')
                     | Inr cumulative \<Rightarrow>
                         (Inr (at_index items
                                 (findIndex (\<lambda>e. num_less number (Num e)) cumulative)), g')))))"

section \<open>Specification functions\<close>

text \<open>
  The data model asks for a generator whose three fields are unsigned 64-bit integers.
\<close>

definition in_u64 :: "int \<Rightarrow> bool" where
  "in_u64 x \<longleftrightarrow> 0 \<le> x \<and> x < 2 ^ 64"

definition u64_generator :: "RNG \<Rightarrow> bool" where
  "u64_generator g \<longleftrightarrow> in_u64 (state g) \<and> in_u64 (multiplier g) \<and> in_u64 (increment g)"

text \<open>The state advance of the linear congruential generator.\<close>

definition advance :: "RNG \<Rightarrow> RNG" where
  "advance g = g\<lparr>state := (state g * multiplier g + increment g) mod 2 ^ 64\<rparr>"

text \<open>
  The output permutation, with the rotation taken from the library of machine words:
  xor-shift, truncate to 32 bits, rotate right by the top five bits of the state.
\<close>

definition xsh_rr :: "int \<Rightarrow> int" where
  "xsh_rr x =
     uint (word_rotr (nat (drop_bit 59 x))
             (word_of_int (drop_bit 27 (x XOR drop_bit 18 x) mod 2 ^ 32) :: 32 word))"

text \<open>
  The draws of the permutation loop as a function of the generator and the list: the
  elements removed, in the order of their removal, the list that is left when the loop
  ends, and the generator then.
\<close>

function draws :: "RNG \<Rightarrow> 'b list \<Rightarrow> 'b list \<times> 'b list \<times> RNG" where
  "draws g xs =
     (if 1 < length xs then
        (let i = nat (xsh_rr (state g) mod int (length xs)) in
         case draws (advance g) (take i xs @ drop (Suc i) xs) of
           (taken, rest, g') \<Rightarrow> (xs ! i # taken, rest, g'))
      else ([], xs, g))"
  by pat_completeness auto
termination
proof (relation "measure (\<lambda>(g, xs). length xs)")
  show "wf (measure (\<lambda>(g, xs :: 'b list). length xs))" by simp
next
  fix g :: RNG and xs :: "'b list" and i
  assume "1 < length xs" and i: "i = nat (xsh_rr (state g) mod int (length xs))"
  then have "0 < int (length xs)" by auto
  then have "0 \<le> xsh_rr (state g) mod int (length xs)"
    "xsh_rr (state g) mod int (length xs) < int (length xs)"
    by (rule pos_mod_sign, rule pos_mod_bound)
  then have "i < length xs" unfolding i by linarith
  then show "((advance g, take i xs @ drop (Suc i) xs), (g, xs)) \<in> measure (\<lambda>(g, xs). length xs)"
    by simp
qed

declare draws.simps [simp del]

text \<open>
  Inputs for the evaluations: the generator with state 0 and the default multiplier and
  increment, the generator with the state that one step of the default generator
  leaves, a store whose only array is empty, and a store with one array of three
  elements. Both stores hold the default generator.
\<close>

definition zero_RNG :: RNG where
  "zero_RNG = constructor 0 6364136223846793005 1442695040888963407"

definition stepped_RNG :: RNG where
  "stepped_RNG = constructor 1378541983250661254 6364136223846793005 1442695040888963407"

definition empty_array_world :: "unit world" where
  "empty_array_world = \<lparr>rng = default_RNG, arrays = (\<lambda>_. []), fresh = 1\<rparr>"

definition three_world :: "nat world" where
  "three_world =
     \<lparr>rng = default_RNG, arrays = (\<lambda>_. [])(0 := [Other 10, Other 20, Other 30]), fresh = 1\<rparr>"

section \<open>The conversion through binary strings\<close>

lemma read_bits_binary:
  "set xs \<subseteq> {CHR ''0'', CHR ''1''} \<Longrightarrow>
   \<exists>v < 2 ^ length xs. \<forall>acc. read_bits xs acc = Some (acc * 2 ^ length xs + v)"
proof (induction xs)
  case Nil
  then show ?case by simp
next
  case (Cons c cs)
  then obtain v where v: "v < 2 ^ length cs" "\<And>acc. read_bits cs acc = Some (acc * 2 ^ length cs + v)"
    by auto
  from Cons.prems have "c = CHR ''0'' \<or> c = CHR ''1''" by simp
  then show ?case
  proof
    assume c: "c = CHR ''0''"
    have "\<forall>acc. read_bits (c # cs) acc = Some (acc * 2 ^ length (c # cs) + v)"
      using v c by (simp add: algebra_simps)
    moreover have "v < 2 ^ length (c # cs)" using v(1) by simp
    ultimately show ?thesis by blast
  next
    assume c: "c = CHR ''1''"
    have "\<forall>acc. read_bits (c # cs) acc = Some (acc * 2 ^ length (c # cs) + (2 ^ length cs + v))"
      using v c by (simp add: algebra_simps)
    moreover have "2 ^ length cs + v < 2 ^ length (c # cs)" using v(1) by simp
    ultimately show ?thesis by blast
  qed
qed

lemma bin_digits_unfold:
  "bin_digits n =
     (if n < 2 then [if n = 0 then CHR ''0'' else CHR ''1'']
      else bin_digits (n div 2) @ [if n mod 2 = 0 then CHR ''0'' else CHR ''1''])"
  by (rule bin_digits.simps)

lemma set_bin_digits: "set (bin_digits n) \<subseteq> {CHR ''0'', CHR ''1''}"
proof (induction n rule: bin_digits.induct)
  case (1 n)
  show ?case
  proof (cases "n < 2")
    case True
    then show ?thesis by (subst bin_digits_unfold) simp
  next
    case False
    with 1 show ?thesis by (subst bin_digits_unfold) auto
  qed
qed

lemma read_bits_append:
  "read_bits (xs @ ys) acc = (case read_bits xs acc of None \<Rightarrow> None | Some a \<Rightarrow> read_bits ys a)"
  by (induction xs arbitrary: acc) auto

lemma read_bits_bin_digits:
  "read_bits (bin_digits n) acc = Some (acc * 2 ^ length (bin_digits n) + n)"
proof (induction n arbitrary: acc rule: bin_digits.induct)
  case (1 n)
  show ?case
  proof (cases "n < 2")
    case True
    then have "n = 0 \<or> n = 1" by auto
    moreover have "bin_digits n = [if n = 0 then CHR ''0'' else CHR ''1'']"
      using True by (subst bin_digits_unfold) simp
    ultimately show ?thesis by auto
  next
    case False
    have eq: "bin_digits n = bin_digits (n div 2) @ [if n mod 2 = 0 then CHR ''0'' else CHR ''1'']"
      using False by (subst bin_digits_unfold) simp
    have ih: "read_bits (bin_digits (n div 2)) acc
              = Some (acc * 2 ^ length (bin_digits (n div 2)) + n div 2)"
      using 1 False by simp
    have n: "n = 2 * (n div 2) + n mod 2" by simp
    show ?thesis
    proof (cases "n mod 2 = 0")
      case True
      then have "n = 2 * (n div 2)" by presburger
      then show ?thesis 
        unfolding eq by (simp add: read_bits_append ih True algebra_simps)
    next
      case False
      then have "n = 2 * (n div 2) + 1" by presburger
      then show ?thesis
        unfolding eq by (simp add: read_bits_append ih False algebra_simps)
    qed
  qed
qed

lemma bin_digits_less: "n < 2 ^ length (bin_digits n)"
proof -
  obtain v where v: "v < 2 ^ length (bin_digits n)"
    "\<And>acc. read_bits (bin_digits n) acc = Some (acc * 2 ^ length (bin_digits n) + v)"
    using read_bits_binary [OF set_bin_digits, of n] by auto
  from v(2) [of 0] have "v = n" by (simp add: read_bits_bin_digits)
  with v(1) show ?thesis by simp
qed

lemma read_bits_zeros: "read_bits (replicate k CHR ''0'') acc = Some (acc * 2 ^ k)"
  by (induction k arbitrary: acc) (auto simp: algebra_simps)

lemma read_bits_drop_bin_digits:
  assumes "k \<le> length (bin_digits n)"
  shows "read_bits (drop (length (bin_digits n) - k) (bin_digits n)) 0 = Some (n mod 2 ^ k)"
proof -
  let ?ds = "bin_digits n"
  let ?h = "take (length ?ds - k) ?ds"
  let ?t = "drop (length ?ds - k) ?ds"
  have len: "length ?t = k" using assms by simp
  have "set ?h \<subseteq> {CHR ''0'', CHR ''1''}"
    using set_bin_digits [of n] set_take_subset [of "length ?ds - k" ?ds] by blast
  then obtain vh where vh: "\<And>acc. read_bits ?h acc = Some (acc * 2 ^ length ?h + vh)"
    using read_bits_binary [of ?h] by auto
  have "set ?t \<subseteq> {CHR ''0'', CHR ''1''}"
    using set_bin_digits [of n] set_drop_subset [of "length ?ds - k" ?ds] by blast
  then obtain vt where vt: "vt < 2 ^ k" "\<And>acc. read_bits ?t acc = Some (acc * 2 ^ k + vt)"
    using read_bits_binary [of ?t] len by auto
  have "read_bits (?h @ ?t) 0 = Some (vh * 2 ^ k + vt)"
    unfolding read_bits_append by (simp add: vh vt)
  moreover have "read_bits (?h @ ?t) 0 = Some n"
    using read_bits_bin_digits [of n 0] by simp
  ultimately have "n = vh * 2 ^ k + vt"
    by simp
  then have "n mod 2 ^ k = vt" using vt(1) by simp
  then show ?thesis using vt(2) [of 0] by simp
qed

lemma BigInt_pad_or_truncate:
  assumes "0 \<le> x"
  shows "BigInt (pad_or_truncate x 64) = Inr (x mod 2 ^ 64)"
proof -
  let ?ds = "bin_digits (nat x)"
  have ts: "toString2 x = ?ds" using assms by (simp add: toString2_def)
  show ?thesis
  proof (cases "length ?ds \<le> 64")
    case True
    have "nat x < 2 ^ length ?ds" by (rule bin_digits_less)
    also have "\<dots> \<le> 2 ^ 64" using True by (rule power_increasing) simp
    finally have "nat x < 2 ^ 64" .
    then have small: "x mod 2 ^ 64 = x" using assms by (simp add: nat_less_iff)
    have "read_bits (replicate (64 - length ?ds) CHR ''0'' @ ?ds) 0 = Some (nat x)"
      by (simp add: read_bits_append read_bits_zeros read_bits_bin_digits)
    then show ?thesis
      using True assms small by (simp add: BigInt_def pad_or_truncate_def Let_def ts)
  next
    case False
    then have le: "64 \<le> length ?ds" by simp
    have "read_bits (drop (length ?ds - 64) ?ds) 0 = Some (nat x mod 2 ^ 64)"
      by (rule read_bits_drop_bin_digits [OF le])
    moreover have "int (nat x mod 2 ^ 64) = x mod 2 ^ 64"
      using assms by (simp add: zmod_int)
    ultimately show ?thesis
      using False le by (simp add: BigInt_def pad_or_truncate_def Let_def ts)
  qed
qed

section \<open>The step function\<close>

lemma neg_and_31:
  assumes "0 \<le> r" "r < 32"
  shows "(- r) AND 31 = (if r = 0 then 0 else 32 - (r::int))"
proof -
  have "(- r) AND 31 = (- r) AND mask 5" by (simp add: mask_eq_exp_minus_1)
  also have "\<dots> = take_bit 5 (- r)" by (simp add: take_bit_eq_mask)
  also have "\<dots> = (- r) mod 32" by (simp add: take_bit_eq_mod)
  also have "\<dots> = (if r = 0 then 0 else 32 - r)" using assms by (auto simp: zmod_zminus1_eq_if)
  finally show ?thesis .
qed

lemma mask32: "(4294967295 :: int) = mask 32"
  by (simp add: mask_eq_exp_minus_1)

lemma rotr32_word:
  assumes "0 \<le> r" "r < 32"
  shows "rotr32 (take_bit 32 z) r = uint (word_rotr (nat r) (word_of_int z :: 32 word))"
proof (rule bit_eqI)
  fix n
  let ?y = "take_bit 32 z"
  obtain k where k: "r = int k" "k < 32" using assms by (metis nat_less_iff nonneg_int_cases zless_nat_eq_int_zless numeral_eq_iff of_nat_numeral nat_int)
  show "bit (rotr32 ?y r) n \<longleftrightarrow> bit (uint (word_rotr (nat r) (word_of_int z :: 32 word))) n"
  proof (cases "k = 0")
    case True
    then show ?thesis using k
      by (auto simp: rotr32_def shr_def shl_def mask32 bit_simps)
  next
    case False
    then have s: "nat ((- r) AND 31) = 32 - k" using k neg_and_31 [of r] by simp
    show ?thesis
    proof (cases "n + k < 32")
      case True
      then show ?thesis using k False s
        by (auto simp: rotr32_def shr_def shl_def mask32 bit_simps ac_simps)
    next
      case F2: False
      then have "n < 32 \<Longrightarrow> (n + k) mod 32 = n + k - 32" using k
        by (simp add: mod_if)
      then show ?thesis using k False s F2
        by (auto simp: rotr32_def shr_def shl_def mask32 bit_simps ac_simps)
    qed
  qed
qed

lemma call_nonneg:
  assumes "0 \<le> state g * multiplier g + increment g"
  shows "call g =
    (Inr (rotr32 (take_bit 32 (shr (state g XOR shr (state g) 18) 27)) (shr (state g) 59)),
     advance g)"
  using assms
  by (simp add: call_def BigInt_pad_or_truncate advance_def Let_def mask32 take_bit_eq_mask)

lemma drop_bit_59_u64:
  assumes "in_u64 x"
  shows "0 \<le> drop_bit 59 x" "drop_bit 59 x < 32"
proof -
  show "0 \<le> drop_bit 59 x" using assms by (simp add: in_u64_def)
  have "x < 2 ^ 59 * 32" using assms by (simp add: in_u64_def)
  then show "drop_bit 59 x < 32"
    by (simp add: drop_bit_eq_div div_less_iff_less_mult)
qed

lemma u64_sum_nonneg:
  "u64_generator g \<Longrightarrow> 0 \<le> state g * multiplier g + increment g"
  by (simp add: u64_generator_def in_u64_def)

lemma word32_of_int_mod: "(word_of_int (z mod 2 ^ 32) :: 32 word) = word_of_int z"
  by transfer (simp add: take_bit_eq_mod)

lemma call_u64:
  assumes "u64_generator g"
  shows "call g = (Inr (xsh_rr (state g)), advance g)"
proof -
  let ?x = "state g"
  have s: "in_u64 ?x" using assms by (simp add: u64_generator_def)
  note r = drop_bit_59_u64 [OF s]
  have a: "shr ?x 59 = drop_bit 59 ?x" by (simp add: shr_def)
  have b: "shr (?x XOR shr ?x 18) 27 = drop_bit 27 (?x XOR drop_bit 18 ?x)"
    by (simp add: shr_def)
  have "rotr32 (take_bit 32 (shr (?x XOR shr ?x 18) 27)) (shr ?x 59) = xsh_rr ?x"
    unfolding a b xsh_rr_def word32_of_int_mod by (rule rotr32_word [OF r])
  then show ?thesis
    using call_nonneg [OF u64_sum_nonneg [OF assms]] by simp
qed

lemma xsh_rr_range: "0 \<le> xsh_rr x \<and> xsh_rr x < 2 ^ 32"
proof -
  have "uint w < 2 ^ 32" for w :: "32 word"
    using uint_bounded [of w] by simp
  then show ?thesis by (simp add: xsh_rr_def)
qed

lemma advance_u64: "u64_generator g \<Longrightarrow> u64_generator (advance g)"
  by (simp add: u64_generator_def advance_def in_u64_def)

lemma u64_default: "u64_generator default_RNG"
  by (simp add: u64_generator_def in_u64_def default_RNG_def constructor_def)

text \<open>
  Claim C1. For a generator whose state, multiplier and increment are in \<open>[0, 2^64)\<close>, one
  call of the step function does not throw; it returns the 32-bit rotation to the right,
  by \<open>x >> 59\<close>, of \<open>((x xor (x >> 18)) >> 27) mod 2^32\<close>, where \<open>x\<close> is the state before
  the call; the result is in \<open>[0, 2^32)\<close>; and the only field that changes is the state,
  which becomes \<open>(x * multiplier + increment) mod 2^64\<close>.
\<close>

theorem call_step:
  assumes "u64_generator g"
  shows "\<exists>v. call g = (Inr v, g\<lparr>state := (state g * multiplier g + increment g) mod 2 ^ 64\<rparr>)
             \<and> v = uint (word_rotr (nat (drop_bit 59 (state g)))
                          (word_of_int (drop_bit 27 (state g XOR drop_bit 18 (state g)) mod 2 ^ 32)
                             :: 32 word))
             \<and> 0 \<le> v \<and> v < 2 ^ 32"
  using call_u64 [OF assms] xsh_rr_range [of "state g"]
  unfolding xsh_rr_def advance_def by blast

lemma xsh_rr_default: "xsh_rr 0x4d595df4d0f33173 = 676697322"
  unfolding xsh_rr_def by code_simp

theorem call_step_witness:
  "u64_generator default_RNG \<and>
   call default_RNG = (Inr 676697322, default_RNG\<lparr>state := 1378541983250661254\<rparr>)"
proof -
  have u: "u64_generator default_RNG" by (rule u64_default)
  have s: "state default_RNG = 0x4d595df4d0f33173"
    by (simp add: default_RNG_def constructor_def)
  have e: "(state default_RNG * multiplier default_RNG + increment default_RNG) mod 2 ^ 64 = 1378541983250661254"
     by (simp add: default_RNG_def constructor_def)
  from call_step [OF u] obtain v where
    v: "call default_RNG = (Inr v, default_RNG\<lparr>state := (state default_RNG * multiplier default_RNG + increment default_RNG) mod 2 ^ 64\<rparr>)"
     "v = uint (word_rotr (nat (drop_bit 59 (state default_RNG)))
                          (word_of_int (drop_bit 27 (state default_RNG XOR drop_bit 18 (state default_RNG)) mod 2 ^ 32)
                             :: 32 word))"
    by blast
  have "v = 676697322" using v(2) xsh_rr_default unfolding s xsh_rr_def by simp
  then show ?thesis using u v(1) unfolding e by simp
qed

section \<open>The first outputs of two generators\<close>

text \<open>
  The generator that the constructor builds from its default arguments, the generator
  with the state that its first step leaves, and the generator with state 0, stepped
  once.
\<close>

lemma advance_default: "advance default_RNG = default_RNG\<lparr>state := 1378541983250661254\<rparr>"
  by (simp add: advance_def default_RNG_def constructor_def)

lemma call_default:
  "call default_RNG = (Inr 676697322, default_RNG\<lparr>state := 1378541983250661254\<rparr>)"
proof -
  have "state default_RNG = 0x4d595df4d0f33173"
    by (simp add: default_RNG_def constructor_def)
  then show ?thesis
    using call_u64 [OF u64_default] by (simp only: xsh_rr_default advance_default)
qed

lemma u64_zero: "u64_generator zero_RNG"
  by (simp add: u64_generator_def in_u64_def zero_RNG_def constructor_def)

lemma xsh_rr_zero: "xsh_rr 0 = 0"
  unfolding xsh_rr_def by code_simp

lemma call_zero: "call zero_RNG = (Inr 0, zero_RNG\<lparr>state := 1442695040888963407\<rparr>)"
proof -
  have "state zero_RNG = 0" by (simp add: zero_RNG_def constructor_def)
  moreover have "advance zero_RNG = zero_RNG\<lparr>state := 1442695040888963407\<rparr>"
    by (simp add: advance_def zero_RNG_def constructor_def)
  ultimately show ?thesis
    using call_u64 [OF u64_zero] by (simp only: xsh_rr_zero)
qed

lemma xsh_rr_second: "xsh_rr 1378541983250661254 = 420258633"
  unfolding xsh_rr_def by code_simp

lemma u64_stepped: "u64_generator stepped_RNG"
  by (simp add: u64_generator_def in_u64_def stepped_RNG_def constructor_def)

lemma call_stepped:
  "call stepped_RNG = (Inr 420258633, stepped_RNG\<lparr>state := 458840393324832221\<rparr>)"
proof -
  have "state stepped_RNG = 1378541983250661254" by (simp add: stepped_RNG_def constructor_def)
  moreover have "advance stepped_RNG = stepped_RNG\<lparr>state := 458840393324832221\<rparr>"
    by (simp add: advance_def stepped_RNG_def constructor_def)
  ultimately show ?thesis
    using call_u64 [OF u64_stepped] by (simp only: xsh_rr_second)
qed

lemma returning_call_u64:
  "u64_generator g \<Longrightarrow> returning (call g) f = (Inr (f (xsh_rr (state g))), advance g)"
  by (simp add: returning_def call_u64)

section \<open>Seeding\<close>

text \<open>
  The assignment in \<open>init\<close> stores the sum \<open>seed + increment\<close> as it is, which can
  reach \<open>2^65 - 2\<close>; the step that follows reduces its result modulo \<open>2^64\<close>, and a
  product is congruent to the product of the reduced factors. So \<open>init\<close> leaves the
  generator that one step leaves when it starts from the state
  \<open>(seed + increment) mod 2^64\<close>; the output of that step is dropped.
\<close>

lemma advance_mod_state:
  "advance (g\<lparr>state := s mod 2 ^ 64\<rparr>) = advance (g\<lparr>state := s\<rparr>)"
proof -
  have "(s mod 2 ^ 64 * multiplier g + increment g) mod 2 ^ 64
        = (s * multiplier g + increment g) mod 2 ^ 64"
    by (metis mod_add_left_eq mod_mult_left_eq)
  then show ?thesis by (simp add: advance_def)
qed

lemma init_u64:
  assumes "in_u64 seed" "in_u64 (multiplier g)" "in_u64 (increment g)"
  shows "init g seed = (Inr (), advance (g\<lparr>state := (seed + increment g) mod 2 ^ 64\<rparr>))"
proof -
  let ?g1 = "g\<lparr>state := seed + increment g\<rparr>"
  have "0 \<le> state ?g1 * multiplier ?g1 + increment ?g1"
    using assms by (simp add: in_u64_def)
  from call_nonneg [OF this] show ?thesis
    using advance_mod_state [where g = g and s = "seed + increment g"] by (simp add: init_def Let_def)
qed

text \<open>
  Claim C3. For a seed in \<open>[0, 2^64)\<close> (and a multiplier and an increment in that
  range), \<open>init\<close> does not throw and leaves the generator that one step-advance leaves
  from the state \<open>(seed + increment) mod 2^64\<close>: the multiplier and the increment are
  unchanged and the state is
  \<open>(((seed + increment) mod 2^64) * multiplier + increment) mod 2^64\<close>.
\<close>

theorem init_seed:
  assumes "in_u64 seed" "in_u64 (multiplier g)" "in_u64 (increment g)"
  shows "\<exists>g'. init g seed = (Inr (), g')
           \<and> g' = g\<lparr>state := ((seed + increment g) mod 2 ^ 64 * multiplier g + increment g) mod 2 ^ 64\<rparr>
           \<and> g' = snd (call (g\<lparr>state := (seed + increment g) mod 2 ^ 64\<rparr>))"
proof -
  let ?g0 = "g\<lparr>state := (seed + increment g) mod 2 ^ 64\<rparr>"
  have u: "u64_generator ?g0"
    using assms by (simp add: u64_generator_def in_u64_def)
  have "snd (call ?g0) = advance ?g0" using call_u64 [OF u] by simp
  moreover have "advance ?g0 = g\<lparr>state := ((seed + increment g) mod 2 ^ 64 * multiplier g + increment g) mod 2 ^ 64\<rparr>"
    by (simp add: advance_def)
  ultimately show ?thesis using init_u64 [OF assms] by simp
qed

theorem init_seed_witness:
  "in_u64 42 \<and> in_u64 (multiplier default_RNG) \<and> in_u64 (increment default_RNG) \<and>
   init default_RNG 42 = (Inr (), default_RNG\<lparr>state := 10915315373440060052\<rparr>)"
proof -
  have a: "in_u64 42" "in_u64 (multiplier default_RNG)" "in_u64 (increment default_RNG)"
    by (simp_all add: in_u64_def default_RNG_def constructor_def)
  have e: "((42 + increment default_RNG) mod 2 ^ 64 * multiplier default_RNG + increment default_RNG) mod 2 ^ 64
           = 10915315373440060052"
    by (simp add: default_RNG_def constructor_def)
  show ?thesis using a init_seed [OF a] unfolding e by auto
qed

section \<open>Rounding of integers\<close>

text \<open>
  An integer of magnitude up to \<open>2^53\<close> is a double. Between \<open>2^53\<close> and \<open>2^54\<close> the
  doubles are the even integers, and rounding moves an integer by at most 1.
\<close>

lemma bit_length_le: "m < 2 ^ k \<Longrightarrow> bit_length m \<le> k"
proof (induction k arbitrary: m)
  case 0
  then have "m = 0" by simp
  then show ?case by (subst bit_length.simps) simp
next
  case (Suc k)
  show ?case
  proof (cases "m = 0")
    case True
    then show ?thesis by (subst bit_length.simps) simp
  next
    case False
    have "m div 2 < 2 ^ k" using Suc.prems by simp
    then have "bit_length (m div 2) \<le> k" by (rule Suc.IH)
    then show ?thesis using False by (subst bit_length.simps) simp
  qed
qed

lemma bit_length_eq: "2 ^ k \<le> m \<Longrightarrow> m < 2 ^ Suc k \<Longrightarrow> bit_length m = Suc k"
proof (induction k arbitrary: m)
  case 0
  then have "m = 1" by simp
  then show ?case by (simp add: bit_length.simps)
next
  case (Suc k)
  have "0 < (2::nat) ^ Suc k" by simp
  then have "m \<noteq> 0" using Suc.prems(1) by linarith
  have "2 ^ k \<le> m div 2" "m div 2 < 2 ^ Suc k" using Suc.prems by simp_all
  then have "bit_length (m div 2) = Suc k" by (rule Suc.IH)
  then show ?case using \<open>m \<noteq> 0\<close> by (subst bit_length.simps) simp
qed

lemma round_to_2: "round_to 2 m \<le> m + 1 \<and> m \<le> round_to 2 m + 1"
  unfolding round_to_def Let_def by (simp split: if_splits) presburger

lemma round64_54:
  assumes "2 ^ 53 \<le> x" "x < 2 ^ 54"
  shows "round64 x = Num (int (round_to 2 (nat x)))"
proof -
  have ax: "\<bar>x\<bar> = x" using assms(1) by simp
  have "2 ^ 53 \<le> nat x" "nat x < 2 ^ Suc 53"
    using assms by (simp_all add: nat_less_iff le_nat_iff)
  then have b: "bit_length (nat x) = Suc 53" by (rule bit_length_eq)
  have "round_to 2 (nat x) \<le> nat x + 1" using round_to_2 [of "nat x"] by simp
  also have "\<dots> \<le> 2 ^ 54" using assms(2) by (simp add: nat_less_iff Suc_le_eq)
  also have "(2::nat) ^ 54 < 2 ^ 1024" by (rule power_strict_increasing) simp_all
  finally have y: "\<not> 2 ^ 1024 \<le> round_to 2 (nat x)" by simp
  have s: "sgn x = 1" using assms(1) by simp
  show ?thesis
    unfolding round64_def Let_def ax b using y by (simp add: s)
qed

lemma round64_small: "\<bar>x\<bar> < 2 ^ 53 \<Longrightarrow> round64 x = Num x"
proof -
  assume "\<bar>x\<bar> < 2 ^ 53"
  then have "nat \<bar>x\<bar> < 2 ^ 53" by (simp add: nat_less_iff)
  then have "bit_length (nat \<bar>x\<bar>) \<le> 53" by (rule bit_length_le)
  then show ?thesis unfolding round64_def Let_def by simp
qed

lemma round64_2_53: "round64 (2 ^ 53) = Num (2 ^ 53)"
proof -
  have "round64 (2 ^ 53) = Num (int (round_to 2 (nat (2 ^ 53))))"
    by (rule round64_54) simp_all
  also have "round_to 2 (nat (2 ^ 53)) = 2 ^ 53" by (simp add: round_to_def)
  finally show ?thesis by simp
qed

lemma round64_minus_2_53: "round64 (- (2 ^ 53)) = Num (- (2 ^ 53))"
proof -
  have m: "nat \<bar>- (2 ^ 53) :: int\<bar> = 2 ^ 53" by simp
  have b: "bit_length (2 ^ 53) = Suc 53" by (rule bit_length_eq) simp_all
  have r: "round_to 2 (2 ^ 53) = 2 ^ 53" by (simp add: round_to_def)
  show ?thesis
    unfolding round64_def Let_def m b using r by simp
qed

lemma round64_safe:
  assumes "- (2 ^ 53) \<le> x" "x \<le> 2 ^ 53"
  shows "round64 x = Num x"
proof -
  consider "\<bar>x\<bar> < 2 ^ 53" | "x = 2 ^ 53" | "x = - (2 ^ 53)" using assms by linarith
  then show ?thesis
  proof cases
    case 1
    then show ?thesis by (rule round64_small)
  next
    case 2
    then show ?thesis by (simp only: round64_2_53)
  next
    case 3
    then show ?thesis by (simp only: round64_minus_2_53)
  qed
qed

lemma round64_2_54: "round64 (2 ^ 54) = Num (2 ^ 54)"
proof -
  have m: "nat \<bar>2 ^ 54 :: int\<bar> = 2 ^ 54" by simp
  have b: "bit_length (2 ^ 54) = Suc 54" by (rule bit_length_eq) simp_all
  have r: "round_to 4 (2 ^ 54) = 2 ^ 54" by (simp add: round_to_def)
  show ?thesis
    unfolding round64_def Let_def m b using r by simp
qed

lemma round64_wide:
  assumes "2 ^ 53 < x" "x \<le> 2 ^ 54"
  shows "\<exists>y. round64 x = Num y \<and> 2 ^ 53 \<le> y"
proof (cases "x = 2 ^ 54")
  case True
  then show ?thesis by (simp only: round64_2_54) simp
next
  case False
  then have lt: "x < 2 ^ 54" using assms(2) by simp
  have le: "2 ^ 53 \<le> x" using assms(1) by simp
  have "nat x \<le> round_to 2 (nat x) + 1" using round_to_2 [of "nat x"] by simp
  then have "2 ^ 53 \<le> int (round_to 2 (nat x))" using assms(1) by linarith
  then show ?thesis by (simp add: round64_54 [OF le lt])
qed

lemma round64_two: "round64 2 = Num 2"
  by (rule round64_small) simp

lemma round64_tie: "round64 9007199254740995 = Num 9007199254740996"
proof -
  have "round64 9007199254740995 = Num (int (round_to 2 (nat 9007199254740995)))"
    by (rule round64_54) simp_all
  also have "round_to 2 (nat 9007199254740995) = 9007199254740996"
    by (simp add: round_to_def)
  finally show ?thesis by simp
qed

section \<open>Integer sampling\<close>

lemma num_rem_nonneg:
  "0 \<le> v \<Longrightarrow> 0 < d \<Longrightarrow> num_rem (Num v) (Num d) = Num (v mod d)"
  by (cases "v = 0") simp_all

lemma num_rem_rounded_difference:
  assumes "0 \<le> v" "v < 2 ^ 32" "0 < d" "d \<le> 2 ^ 54"
  shows "num_rem (Num v) (round64 d) = Num (v mod d)"
proof (cases "d \<le> 2 ^ 53")
  case True
  then have "round64 d = Num d" using assms(3) by (intro round64_safe) simp_all
  then show ?thesis using assms(1,3) by (simp add: num_rem_nonneg del: num_rem.simps)
next
  case False
  then obtain y where y: "round64 d = Num y" "2 ^ 53 \<le> y"
    using round64_wide [of d] assms(4) by auto
  have "v < y" using assms(2) y(2) by simp
  moreover have "v < d" using assms(2) False by simp
  ultimately have "v mod y = v" "v mod d = v" using assms(1) by simp_all
  moreover have "num_rem (Num v) (Num y) = Num (v mod y)"
    using assms(1) y(2) by (intro num_rem_nonneg) simp_all
  ultimately show ?thesis by (simp only: y(1))
qed

lemma randint_two_safe:
  assumes "u64_generator g" "mn < mx" "- (2 ^ 53) \<le> mn" "mx \<le> 2 ^ 53"
  shows "randint g (Some mn) (Some mx)
           = (Inr (Num (xsh_rr (state g) mod (mx - mn) + mn)), advance g)"
proof -
  let ?v = "xsh_rr (state g)"
  let ?d = "mx - mn"
  note v = xsh_rr_range [of "state g"]
  have d: "0 < ?d" "?d \<le> 2 ^ 54" using assms(2-4) by simp_all
  have "0 \<le> ?v mod ?d" "?v mod ?d < ?d"
    using d(1) by (rule pos_mod_sign, rule pos_mod_bound)
  then have "- (2 ^ 53) \<le> ?v mod ?d + mn" "?v mod ?d + mn \<le> 2 ^ 53"
    using assms(3,4) by simp_all
  then have B: "round64 (?v mod ?d + mn) = Num (?v mod ?d + mn)" by (rule round64_safe)
  show ?thesis
  proof (cases "mx = 0")
    case True
    then have neg: "mn < 0" using assms(2) by simp
    have "num_rem (Num ?v) (Num (- mn)) = Num (?v mod (- mn))"
      using v neg by (intro num_rem_nonneg) simp_all
    then show ?thesis
      using True neg B
      by (simp add: randint_def returning_call_u64 [OF assms(1)] del: num_rem.simps)
  next
    case False
    have A: "num_rem (Num ?v) (round64 ?d) = Num (?v mod ?d)"
      using v d by (intro num_rem_rounded_difference) simp_all
    show ?thesis
      using False B
      by (simp add: randint_def returning_call_u64 [OF assms(1)] A del: num_rem.simps)
  qed
qed

text \<open>
  Claim C7 says that \<open>randint\<close> with integers \<open>min < max\<close> returns
  \<open>v mod (max - min) + min\<close>, a value in \<open>[min, max)\<close>, for every such pair. The sum is
  a sum of doubles. With \<open>min = 2^53 + 2\<close> and \<open>max = 2^53 + 4\<close>, on the generator whose
  step returns \<open>v = 420258633\<close>, the remainder is 1, the sum \<open>2^53 + 3\<close> is no double and
  rounds to its even neighbour: \<open>randint\<close> returns \<open>2^53 + 4\<close>, which is \<open>max\<close>.
\<close>

theorem randint_beyond_safe_range:
  "call stepped_RNG = (Inr 420258633, stepped_RNG\<lparr>state := 458840393324832221\<rparr>) \<and>
   randint stepped_RNG (Some 9007199254740994) (Some 9007199254740996)
     = (Inr (Num 9007199254740996), stepped_RNG\<lparr>state := 458840393324832221\<rparr>)"
  by (simp add: randint_def returning_def call_stepped round64_two round64_tie)

text \<open>
  Claim C7, amended. For integers \<open>min < max\<close> with \<open>- 2^53 \<le> min\<close> and
  \<open>max \<le> 2^53\<close>, \<open>randint\<close> with both bounds returns \<open>v mod (max - min) + min\<close>, where
  \<open>v\<close> is the output of the one step it takes, and that value is in \<open>[min, max)\<close>. A
  difference \<open>max - min\<close> above \<open>2^53\<close> may be rounded, to a double that is still above
  \<open>v\<close>; the sum is exact. When \<open>max\<close> is 0 the code takes the branch of a single
  bound, which computes the same value.
\<close>

theorem randint_safe_range:
  assumes "u64_generator g" "mn < mx" "- (2 ^ 53) \<le> mn" "mx \<le> 2 ^ 53"
  shows "\<exists>v g'. call g = (Inr v, g')
           \<and> randint g (Some mn) (Some mx) = (Inr (Num (v mod (mx - mn) + mn)), g')
           \<and> mn \<le> v mod (mx - mn) + mn \<and> v mod (mx - mn) + mn < mx"
proof -
  let ?v = "xsh_rr (state g)"
  have d: "0 < mx - mn" using assms(2) by simp
  have "0 \<le> ?v mod (mx - mn)" "?v mod (mx - mn) < mx - mn"
    using d by (rule pos_mod_sign, rule pos_mod_bound)
  then have "mn \<le> ?v mod (mx - mn) + mn" "?v mod (mx - mn) + mn < mx"
    by simp_all
  then show ?thesis
    using call_u64 [OF assms(1)] randint_two_safe [OF assms] by simp
qed

theorem randint_safe_range_witness:
  "u64_generator default_RNG \<and> (- 5 :: int) < 0 \<and> - (2 ^ 53) \<le> (- 5 :: int)
   \<and> (0 :: int) \<le> 2 ^ 53 \<and>
   randint default_RNG (Some (- 5)) (Some 0)
     = (Inr (Num (- 3)), default_RNG\<lparr>state := 1378541983250661254\<rparr>)"
proof -
  have h: "(- 5 :: int) < 0" "- (2 ^ 53) \<le> (- 5 :: int)" "(0 :: int) \<le> 2 ^ 53" by simp_all
  from randint_safe_range [OF u64_default h] obtain v g' where
    c: "call default_RNG = (Inr v, g')" and
    r: "randint default_RNG (Some (- 5)) (Some 0) = (Inr (Num (v mod (0 - - 5) + - 5)), g')"
    by blast
  from c have "v = 676697322" "g' = default_RNG\<lparr>state := 1378541983250661254\<rparr>"
    by (simp_all add: call_default)
  then show ?thesis using r u64_default by simp
qed

text \<open>
  Claim C4 says that a single bound equal to zero makes \<open>randint\<close> and \<open>rand\<close> fail.
  On the default generator both return a value: zero is falsy, so the call takes the
  branch without bounds.
\<close>

theorem zero_bound_returns:
  "randint default_RNG (Some 0) None
     = (Inr (Num 676697322), default_RNG\<lparr>state := 1378541983250661254\<rparr>) \<and>
   rand default_RNG (Some 0) None
     = (Inr (Num (676697322 / 2 ^ 32)), default_RNG\<lparr>state := 1378541983250661254\<rparr>)"
  by (simp add: randint_def rand_def returning_def call_default)

text \<open>
  Claim C4, amended. With a single bound equal to zero, \<open>randint\<close> and \<open>rand\<close> do not
  fail: they return what they return without any bound, the raw output \<open>v\<close> of one step
  and \<open>v * 2^-32\<close>, and advance the generator by that step.
\<close>

theorem zero_bound_is_no_bound:
  assumes "u64_generator g"
  shows "\<exists>v g'. call g = (Inr v, g')
           \<and> randint g (Some 0) None = (Inr (Num v), g')
           \<and> rand g (Some 0) None = (Inr (Num (of_int v * (1 / 2 ^ 32))), g')
           \<and> randint g (Some 0) None = randint g None None
           \<and> rand g (Some 0) None = rand g None None"
  using call_u64 [OF assms] by (simp add: randint_def rand_def returning_def)

theorem zero_bound_is_no_bound_witness:
  "u64_generator zero_RNG \<and>
   randint zero_RNG (Some 0) None = (Inr (Num 0), zero_RNG\<lparr>state := 1442695040888963407\<rparr>) \<and>
   rand zero_RNG (Some 0) None = (Inr (Num 0), zero_RNG\<lparr>state := 1442695040888963407\<rparr>)"
proof -
  from zero_bound_is_no_bound [OF u64_zero] obtain v g' where
    c: "call zero_RNG = (Inr v, g')" and
    r: "randint zero_RNG (Some 0) None = (Inr (Num v), g')"
       "rand zero_RNG (Some 0) None = (Inr (Num (of_int v * (1 / 2 ^ 32))), g')"
    by blast
  from c have "v = 0" "g' = zero_RNG\<lparr>state := 1442695040888963407\<rparr>"
    by (simp_all add: call_zero)
  then show ?thesis using r u64_zero by simp
qed

section \<open>Float sampling\<close>

text \<open>
  Claim C5 says that \<open>rand\<close> with bounds \<open>min < max\<close> returns
  \<open>v * 2^-32 * (max - min) + min\<close>, a value in \<open>[min, max)\<close>. With \<open>max = 0\<close> the test
  \<^verbatim>\<open>if (max)\<close> fails and the code computes \<open>v * 2^-32 * min\<close> instead. On the
  generator with state 0 the step returns \<open>v = 0\<close>, and \<open>rand\<close> with the bounds \<open>-1\<close> and
  \<open>0\<close> returns 0, which is not below \<open>max\<close>; the claim asks for \<open>-1\<close>.
\<close>

theorem rand_max_zero:
  "call zero_RNG = (Inr 0, zero_RNG\<lparr>state := 1442695040888963407\<rparr>) \<and>
   rand zero_RNG (Some (- 1)) (Some 0) = (Inr (Num 0), zero_RNG\<lparr>state := 1442695040888963407\<rparr>)"
  by (simp add: rand_def returning_def call_zero)

section \<open>Weighted choice\<close>

text \<open>
  Claim C10. When the items array and the probabilities differ in length, \<open>choose\<close>
  throws a RangeError and the generator is the one before the call: no step is taken.
\<close>

theorem choose_item_length_mismatch:
  assumes "length probabilities \<noteq> length items"
  shows "choose_item g probabilities (Some items) = (Inl RangeError, g)"
  using assms by (simp add: choose_item_def)

theorem choose_item_length_mismatch_witness:
  "length [1, 2 :: real] \<noteq> length [Other (0 :: nat)] \<and>
   choose_item default_RNG [1, 2] (Some [Other (0 :: nat)]) = (Inl RangeError, default_RNG)"
  using choose_item_length_mismatch [of "[1, 2]" "[Other (0 :: nat)]" default_RNG] by simp

text \<open>
  With lengths that agree and at least one probability, \<open>choose\<close> draws its random
  number and then throws: the callback of the cumulative sums reads the unbound
  identifier \<^verbatim>\<open>p\<close> on the first element.
\<close>

lemma rand_one_u64:
  assumes "u64_generator g"
  shows "\<exists>r. rand g (Some x) None = (Inr r, advance g)"
  using assms by (simp add: rand_def returning_call_u64)

lemma choose_item_throws:
  assumes "u64_generator g" "probabilities \<noteq> []"
    and "case array of None \<Rightarrow> True | Some items \<Rightarrow> length items = length probabilities"
  shows "choose_item g probabilities array = (Inl ReferenceError, advance g)"
proof -
  obtain x xs where p: "probabilities = x # xs" using assms(2) by (cases probabilities) auto
  obtain r where r: "rand g (Some (foldl (+) x xs)) None = (Inr r, advance g)"
    using rand_one_u64 [OF assms(1)] by blast
  show ?thesis
    using assms(3)
    by (cases array) (simp_all add: choose_item_def p r cumulative_at_def p_unbound_def)
qed

text \<open>
  Claim C2 says that \<open>choose\<close> on non-empty positive weights returns the item, or the
  index, at the first position where the cumulative sum exceeds the number drawn. On
  the single weight 1 and no items, where the claim asks for the index 0, the code throws
  a ReferenceError after one step of the generator.
\<close>

theorem choose_item_reference_error:
  "choose_item default_RNG [1] (None :: unit val list option)
     = (Inl ReferenceError, default_RNG\<lparr>state := 1378541983250661254\<rparr>)"
  using choose_item_throws [OF u64_default, of "[1]" None]
  by (simp add: advance_default)

section \<open>The loop of the permutations\<close>

lemma nat_mod_less: "0 < n \<Longrightarrow> nat (v mod int n) < n"
proof -
  assume "0 < n"
  then have "0 < int n" by simp
  then have "0 \<le> v mod int n" "v mod int n < int n"
    by (rule pos_mod_sign, rule pos_mod_bound)
  then show ?thesis by linarith
qed

lemma int_nat_mod: "0 < n \<Longrightarrow> int (nat (v mod int n)) = v mod int n"
proof -
  assume "0 < n"
  then have "0 < int n" by simp
  then have "0 \<le> v mod int n" by (rule pos_mod_sign)
  then show ?thesis by simp
qed

lemma randint_length_u64:
  assumes "u64_generator g" "1 < n"
  shows "randint g (Some (int n)) None = (Inr (Num (xsh_rr (state g) mod int n)), advance g)"
  using assms xsh_rr_range [of "state g"]
  by (simp add: randint_def returning_call_u64 num_rem_nonneg del: num_rem.simps)

lemma splice_at_index:
  assumes "i < length (arrays w a)"
  shows "splice_at a (Num (int i)) w =
    ([arrays w a ! i], w\<lparr>arrays := (arrays w)(a := take i (arrays w a) @ drop (Suc i) (arrays w a))\<rparr>)"
proof -
  have "min 1 (length (arrays w a) - i) = 1" using assms by simp
  moreover have "take 1 (drop i (arrays w a)) = [arrays w a ! i]"
    using assms by (simp add: Cons_nth_drop_Suc [symmetric])
  ultimately show ?thesis using assms by (simp add: splice_at_def Let_def)
qed

lemma draw_loop_step:
  assumes "u64_generator (rng w)" "1 < length (arrays w src)" "src \<noteq> dst"
  shows "draw_loop src dst w =
    draw_loop src dst
      (w\<lparr>rng := advance (rng w),
         arrays := (arrays w)
           (src := take (nat (xsh_rr (state (rng w)) mod int (length (arrays w src)))) (arrays w src)
                   @ drop (Suc (nat (xsh_rr (state (rng w)) mod int (length (arrays w src))))) (arrays w src),
            dst := arrays w dst @ [arrays w src ! nat (xsh_rr (state (rng w)) mod int (length (arrays w src)))])\<rparr>)"
proof -
  let ?xs = "arrays w src"
  let ?i = "nat (xsh_rr (state (rng w)) mod int (length ?xs))"
  let ?w1 = "w\<lparr>rng := advance (rng w)\<rparr>"
  have pos: "0 < length ?xs" using assms(2) by auto
  then have i: "?i < length ?xs" by (rule nat_mod_less)
  have ii: "int ?i = xsh_rr (state (rng w)) mod int (length ?xs)"
    using pos by (rule int_nat_mod)
  have r: "with_rng (\<lambda>g. randint g (Some (int (length ?xs))) None) w = (Inr (Num (int ?i)), ?w1)"
    unfolding ii by (simp add: with_rng_def randint_length_u64 [OF assms(1,2)])
  have i1: "?i < length (arrays ?w1 src)" using i by simp
  show ?thesis
    apply (subst draw_loop.simps)
    apply (simp only: assms(2) if_True r prod.case sum.case)
    apply (simp only: splice_at_index [OF i1] prod.case)
    using assms(3) by (simp add: push_def at_index_def fun_upd_twist)
qed

lemma draw_loop_done:
  "\<not> 1 < length (arrays w src) \<Longrightarrow> draw_loop src dst w = Some (Inr (), w)"
  by (subst draw_loop.simps) simp

lemma draw_loop_u64:
  assumes "src \<noteq> dst"
  shows "u64_generator g \<Longrightarrow> rng w = g \<Longrightarrow> arrays w src = xs \<Longrightarrow>
    draw_loop src dst w =
      (case draws g xs of
         (taken, rest, g') \<Rightarrow>
           Some (Inr (), w\<lparr>rng := g', arrays := (arrays w)(src := rest, dst := arrays w dst @ taken)\<rparr>))"
proof (induction g xs arbitrary: w rule: draws.induct)
  case (1 g xs)
  show ?case
  proof (cases "1 < length xs")
    case False
    then have d: "draws g xs = ([], xs, g)" by (subst draws.simps) simp
    have e: "w\<lparr>rng := g, arrays := (arrays w)(src := xs, dst := arrays w dst @ [])\<rparr> = w"
      using "1.prems"(2,3) [symmetric] by simp
    have "draw_loop src dst w = Some (Inr (), w)"
      using False "1.prems" by (simp add: draw_loop_done)
    then show ?thesis by (simp only: d prod.case e)
  next
    case True
    let ?i = "nat (xsh_rr (state g) mod int (length xs))"
    let ?w' = "w\<lparr>rng := advance g,
         arrays := (arrays w)(src := take ?i xs @ drop (Suc ?i) xs, dst := arrays w dst @ [xs ! ?i])\<rparr>"
    have step: "draw_loop src dst w = draw_loop src dst ?w'"
      using draw_loop_step [of w src dst] "1.prems" True assms by simp
    obtain t r g' where dr: "draws (advance g) (take ?i xs @ drop (Suc ?i) xs) = (t, r, g')"
      by (cases "draws (advance g) (take ?i xs @ drop (Suc ?i) xs)") auto
    have "draw_loop src dst ?w' =
       (case draws (advance g) (take ?i xs @ drop (Suc ?i) xs) of
         (taken, rest, g') \<Rightarrow>
           Some (Inr (), ?w'\<lparr>rng := g', arrays := (arrays ?w')(src := rest, dst := arrays ?w' dst @ taken)\<rparr>))"
      using assms "1.prems"(1)
      by (intro "1.IH" [OF True refl]) (simp_all add: advance_u64)
    then have ih: "draw_loop src dst ?w' =
        Some (Inr (), ?w'\<lparr>rng := g', arrays := (arrays ?w')(src := r, dst := arrays ?w' dst @ t)\<rparr>)"
      by (simp only: dr prod.case)
    have d: "draws g xs = (xs ! ?i # t, r, g')"
      using True by (subst draws.simps) (simp add: Let_def dr)
    have eq: "?w'\<lparr>rng := g', arrays := (arrays ?w')(src := r, dst := arrays ?w' dst @ t)\<rparr>
            = w\<lparr>rng := g', arrays := (arrays w)(src := r, dst := arrays w dst @ (xs ! ?i # t))\<rparr>"
      using assms by simp
    show ?thesis
      by (simp only: step ih d eq prod.case)
  qed
qed

lemma pop_snoc:
  assumes "arrays w a = ys @ [y]"
  shows "pop a w = (y, w\<lparr>arrays := (arrays w)(a := ys)\<rparr>)"
proof (cases "arrays w a")
  case Nil
  then show ?thesis using assms by simp
next
  case (Cons x xs)
  have "last (x # xs) = y" "butlast (x # xs) = ys"
    using assms Cons by (metis last_snoc, metis butlast_snoc)
  then show ?thesis by (simp add: pop_def Cons)
qed

lemma unshift_loop_result:
  assumes "array \<noteq> oldArray"
  shows "arrays w oldArray = ys \<Longrightarrow>
    unshift_loop array oldArray w =
      Some (w\<lparr>arrays := (arrays w)(oldArray := [], array := ys @ arrays w array)\<rparr>)"
proof (induction ys arbitrary: w rule: rev_induct)
  case Nil
  then have e: "w\<lparr>arrays := (arrays w)(oldArray := [], array := [] @ arrays w array)\<rparr> = w"
    by (metis append_Nil fun_upd_triv world.surjective world.update_convs(2))
  have u: "unshift_loop array oldArray w = Some w"
    using Nil by (subst unshift_loop.simps) simp
  show ?case by (simp only: e u)
next
  case (snoc y ys)
  let ?w2 = "w\<lparr>arrays := (arrays w)(oldArray := ys, array := y # arrays w array)\<rparr>"
  have "unshift_loop array oldArray w = unshift_loop array oldArray ?w2"
    using snoc.prems assms
    by (subst unshift_loop.simps) (simp add: pop_snoc unshift_def)
  also have "\<dots> = Some (?w2\<lparr>arrays := (arrays ?w2)(oldArray := [], array := ys @ arrays ?w2 array)\<rparr>)"
    using assms by (intro snoc.IH) simp
  also have "?w2\<lparr>arrays := (arrays ?w2)(oldArray := [], array := ys @ arrays ?w2 array)\<rparr>
      = w\<lparr>arrays := (arrays w)(oldArray := [], array := (ys @ [y]) @ arrays w array)\<rparr>"
    using assms by simp
  finally show ?case .
qed

lemma draws_Nil: "draws g [] = ([], [], g)"
  by (subst draws.simps) simp

lemma draws_rest:
  "xs \<noteq> [] \<Longrightarrow> \<exists>t x g'. draws g xs = (t, [x], g')"
proof (induction g xs rule: draws.induct)
  case (1 g xs)
  show ?case
  proof (cases "1 < length xs")
    case False
    with "1.prems" obtain x where "xs = [x]" by (cases xs) auto
    then show ?thesis by (subst draws.simps) simp
  next
    case True
    let ?i = "nat (xsh_rr (state g) mod int (length xs))"
    have "0 < length xs" using True by auto
    then have "?i < length xs" by (rule nat_mod_less)
    then have "length (take ?i xs @ drop (Suc ?i) xs) = length xs - 1" by simp
    then have "take ?i xs @ drop (Suc ?i) xs \<noteq> []" using True by auto
    from "1.IH" [OF True refl this] obtain t x g' where
      "draws (advance g) (take ?i xs @ drop (Suc ?i) xs) = (t, [x], g')" by blast
    then show ?thesis using True by (subst draws.simps) (simp add: Let_def)
  qed
qed

text \<open>
  Both methods in closed form, for an array that is allocated: \<open>randperm\<close> returns a
  new array, at the first free address, and uses a second new array for its copy;
  \<open>permute\<close> rewrites the array it is given and uses one new array.
\<close>

lemma randperm_array_u64:
  assumes "u64_generator (rng w)" "a < fresh w"
  shows "randperm (ArrayRef a) w =
    (case draws (rng w) (arrays w a) of
       (t, r, g') \<Rightarrow>
         Some (Inr (fresh w),
               w\<lparr>rng := g',
                 arrays := (arrays w)
                   (Suc (fresh w) := tl r,
                    fresh w := t @ [case r of [] \<Rightarrow> Undefined | x # _ \<Rightarrow> x]),
                 fresh := Suc (Suc (fresh w))\<rparr>))"
proof -
  let ?n = "fresh w"
  let ?w2 = "w\<lparr>arrays := (arrays w)(?n := [], Suc ?n := arrays w a), fresh := Suc (Suc ?n)\<rparr>"
  obtain t r g' where d: "draws (rng w) (arrays w a) = (t, r, g')"
    by (cases "draws (rng w) (arrays w a)") auto
  have a: "a \<noteq> ?n" "a \<noteq> Suc ?n" using assms(2) by simp_all
  have "draw_loop (Suc ?n) ?n ?w2 =
      (case draws (rng w) (arrays w a) of
         (taken, rest, g') \<Rightarrow>
           Some (Inr (), ?w2\<lparr>rng := g', arrays := (arrays ?w2)(Suc ?n := rest, ?n := arrays ?w2 ?n @ taken)\<rparr>))"
    using assms(1) by (intro draw_loop_u64) simp_all
  then have l: "draw_loop (Suc ?n) ?n ?w2 =
      Some (Inr (), ?w2\<lparr>rng := g', arrays := (arrays ?w2)(Suc ?n := r, ?n := arrays ?w2 ?n @ t)\<rparr>)"
    by (simp only: d prod.case)
  show ?thesis
    using a l by (cases r) (simp_all add: randperm_def new_array_def d shift_def push_def)
qed

lemma permute_u64:
  assumes "u64_generator (rng w)" "a < fresh w"
  shows "permute a w =
    (case draws (rng w) (arrays w a) of
       (t, r, g') \<Rightarrow>
         Some (Inr (),
               w\<lparr>rng := g',
                 arrays := (arrays w)(fresh w := [], a := t @ r),
                 fresh := Suc (fresh w)\<rparr>))"
proof -
  let ?o = "fresh w"
  let ?w1 = "w\<lparr>arrays := (arrays w)(?o := []), fresh := Suc ?o\<rparr>"
  obtain t r g' where d: "draws (rng w) (arrays w a) = (t, r, g')"
    by (cases "draws (rng w) (arrays w a)") auto
  have a: "a \<noteq> ?o" using assms(2) by simp
  let ?w2 = "?w1\<lparr>rng := g', arrays := (arrays ?w1)(a := r, ?o := arrays ?w1 ?o @ t)\<rparr>"
  have "draw_loop a ?o ?w1 =
      (case draws (rng w) (arrays w a) of
         (taken, rest, g') \<Rightarrow>
           Some (Inr (), ?w1\<lparr>rng := g', arrays := (arrays ?w1)(a := rest, ?o := arrays ?w1 ?o @ taken)\<rparr>))"
    using assms(1) a by (intro draw_loop_u64) simp_all
  then have l: "draw_loop a ?o ?w1 = Some (Inr (), ?w2)"
    by (simp only: d prod.case)
  have u: "unshift_loop a ?o ?w2 =
     Some (?w2\<lparr>arrays := (arrays ?w2)(?o := [], a := t @ arrays ?w2 a)\<rparr>)"
    using a by (intro unshift_loop_result) simp_all
  have n: "new_array [] w = (?o, ?w1)" by (simp add: new_array_def)
  have fin: "?w2\<lparr>arrays := (arrays ?w2)(?o := [], a := t @ arrays ?w2 a)\<rparr>
      = w\<lparr>rng := g', arrays := (arrays w)(fresh w := [], a := t @ r), fresh := Suc (fresh w)\<rparr>"
    using a by simp
  show ?thesis
    by (simp only: permute_def n prod.case l u option.case sum.case d fin)
qed

lemma draws_three:
  "draws default_RNG [a, b, c] = ([a, c], [b], default_RNG\<lparr>state := 458840393324832221\<rparr>)"
proof -
  let ?g1 = "default_RNG\<lparr>state := 1378541983250661254\<rparr>"
  have s0: "state default_RNG = 0x4d595df4d0f33173"
    by (simp add: default_RNG_def constructor_def)
  have a1: "advance ?g1 = default_RNG\<lparr>state := 458840393324832221\<rparr>"
    by (simp add: advance_def default_RNG_def constructor_def)
  have d1: "draws (default_RNG\<lparr>state := 458840393324832221\<rparr>) [b] = ([], [b], default_RNG\<lparr>state := 458840393324832221\<rparr>)"
    by (subst draws.simps) simp
  have d2: "draws ?g1 [b, c] = ([c], [b], default_RNG\<lparr>state := 458840393324832221\<rparr>)"
    by (subst draws.simps) (simp add: xsh_rr_second a1 d1)
  show ?thesis
    by (subst draws.simps) (simp add: s0 xsh_rr_default advance_default d2)
qed

section \<open>Permutations\<close>

text \<open>
  Claim C9. \<open>randperm\<close> on an array returns a reference to an array that was not
  allocated before the call, and the input array, as every array allocated before the
  call, has the contents it had: the same length and the same element at every index.
\<close>

theorem randperm_frame:
  assumes "u64_generator (rng w)" "a < fresh w"
  shows "\<exists>r w'. randperm (ArrayRef a) w = Some (Inr r, w')
           \<and> fresh w \<le> r \<and> r < fresh w'
           \<and> arrays w' a = arrays w a
           \<and> (\<forall>b<fresh w. arrays w' b = arrays w b)"
proof -
  obtain t r g' where d: "draws (rng w) (arrays w a) = (t, r, g')"
    by (cases "draws (rng w) (arrays w a)") auto
  show ?thesis
    using assms(2) by (simp add: randperm_array_u64 [OF assms] d)
qed

theorem randperm_frame_witness:
  "u64_generator (rng three_world) \<and> 0 < fresh three_world \<and>
   (\<exists>w'. randperm (ArrayRef 0) three_world = Some (Inr 1, w')
       \<and> arrays w' 0 = [Other 10, Other 20, Other 30]
       \<and> arrays w' 1 = [Other 10, Other 30, Other 20])"
proof -
  have u: "u64_generator (rng three_world)"
    using u64_default by (simp add: three_world_def)
  have f: "0 < fresh three_world" by (simp add: three_world_def)
  from randperm_frame [OF u f] obtain r w' where
    r: "randperm (ArrayRef 0) three_world = Some (Inr r, w')" and
    same: "arrays w' 0 = arrays three_world 0"
    by blast
  have "\<exists>W. randperm (ArrayRef 0) three_world = Some (Inr 1, W)
          \<and> arrays W 1 = [Other 10, Other 30, Other 20]"
    unfolding randperm_array_u64 [OF u f]
    by (simp add: three_world_def draws_three)
  with r have "r = 1" "arrays w' 1 = [Other 10, Other 30, Other 20]" by auto
  then show ?thesis using u f r same by (simp add: three_world_def)
qed

text \<open>
  Claim C6 says that on an empty input \<open>randperm\<close> returns an empty array. The loop is
  skipped, and the \<^verbatim>\<open>shift\<close> of the empty copy that follows returns \<^verbatim>\<open>undefined\<close>,
  which is pushed: on the empty array, and on the number 0, \<open>randperm\<close> returns an array
  of length 1 that holds \<^verbatim>\<open>undefined\<close>. Nothing throws and the generator is not
  stepped; \<open>permute\<close> leaves the empty array empty.
\<close>

theorem randperm_empty_input:
  "\<exists>w1 w2 w3.
     randperm (ArrayRef 0) empty_array_world = Some (Inr 1, w1)
       \<and> arrays w1 1 = [Undefined] \<and> rng w1 = rng empty_array_world
     \<and> randperm (NumberArg 0) empty_array_world = Some (Inr 1, w2)
       \<and> arrays w2 1 = [Undefined] \<and> rng w2 = rng empty_array_world
     \<and> permute 0 empty_array_world = Some (Inr (), w3)
       \<and> arrays w3 0 = [] \<and> rng w3 = rng empty_array_world"
  by (simp add: randperm_def permute_def new_array_def array_from_length_def draw_loop_done
      shift_def push_def unshift_loop.simps empty_array_world_def)

text \<open>
  Claim C8 says that \<open>permute\<close> leaves in the array the sequence that \<open>randperm\<close>
  returns for the same contents, from the same generator. On the empty array \<open>permute\<close>
  leaves the empty array and \<open>randperm\<close> returns an array that holds \<^verbatim>\<open>undefined\<close>.
\<close>

theorem permute_randperm_empty:
  "\<exists>w1 w2.
     permute 0 empty_array_world = Some (Inr (), w1)
     \<and> randperm (ArrayRef 0) empty_array_world = Some (Inr 1, w2)
     \<and> arrays w1 0 = [] \<and> arrays w2 1 = [Undefined] \<and> rng w1 = rng w2"
  by (simp add: randperm_def permute_def new_array_def draw_loop_done
      shift_def push_def unshift_loop.simps empty_array_world_def)

text \<open>
  On every array that is not empty the two methods agree, in the sequence and in the
  generator they leave.
\<close>

lemma permute_randperm_nonempty:
  assumes "u64_generator (rng w)" "a < fresh w" "arrays w a \<noteq> []"
  shows "\<exists>w1 w2 r.
     permute a w = Some (Inr (), w1)
     \<and> randperm (ArrayRef a) w = Some (Inr r, w2)
     \<and> arrays w1 a = arrays w2 r \<and> rng w1 = rng w2"
proof -
  obtain t x g' where d: "draws (rng w) (arrays w a) = (t, [x], g')"
    using draws_rest [OF assms(3)] by blast
  show ?thesis
    using assms(2) by (simp add: randperm_array_u64 [OF assms(1,2)] permute_u64 [OF assms(1,2)] d)
qed

end
